theory Spec2Isabelle
  imports Complex_Main
begin

section \<open>The slide engine of slides/js/slide-engine.js\<close>

text \<open>
  The class \<^verbatim>\<open>SlideEngine\<close> is embedded as a record holding its fields together with
  the part of the page it reads and writes: the \<^verbatim>\<open>.slide-section\<close> elements, the two
  optional widgets, the pending timers created by \<^verbatim>\<open>setTimeout\<close>, the closure variables
  of \<^verbatim>\<open>setupTouch\<close> and the attachment of the input listeners.  Every method takes the
  state and returns the new one.  An uncaught exception is a value that still carries
  the state reached when it was thrown, because the page goes on handling events.

  Numbers: indices and pixel coordinates are integers (\<open>int\<close>, the viewport width a
  \<open>nat\<close>).  The two click thresholds are rationals, so that \<^verbatim>\<open>width * 0.65\<close> is the
  exact product; on whole pixels the comparisons of the source, made on doubles, have
  the same outcome as the exact ones.  The percentage of the progress bar is computed
  as the source computes it: a division and a multiplication of doubles, each rounded
  to the nearest double, and the result printed as the host language prints a number.
\<close>

subsection \<open>Data model\<close>

text \<open>
  One \<^verbatim>\<open>.slide-section\<close> element: whether its class list contains \<^verbatim>\<open>active\<close>, and
  for each of its animated children the number of times its animation was restarted.
\<close>

record slide_section =
  active :: bool
  animated :: "nat list"

text \<open>
  The two callbacks handed to \<^verbatim>\<open>setTimeout\<close> in \<^verbatim>\<open>goTo\<close>.  The outer one captures
  \<^verbatim>\<open>nextSection\<close> (the position of the element in the section list, or \<open>None\<close> for
  \<^verbatim>\<open>undefined\<close>) and \<^verbatim>\<open>index\<close>; the inner one releases the lock.
\<close>

datatype callback = ShowNext "nat option" int | Unlock

datatype error = TypeError

datatype 'a outcome = Normal 'a | Uncaught error 'a

fun state_of :: "'a outcome \<Rightarrow> 'a" where
  "state_of (Normal s) = s"
| "state_of (Uncaught e s) = s"

fun threw :: "'a outcome \<Rightarrow> bool" where
  "threw (Normal s) = False"
| "threw (Uncaught e s) = True"

record engine =
  sections :: "slide_section list"
  currentIndex :: int
  isTransitioning :: bool
  totalSections :: nat
  progress_fill :: "string option"
  page_counter :: "string option"
  listening :: bool
  startX :: int
  startY :: int
  timers :: "(nat \<times> callback) list"
  fullscreenElement :: bool
  fullscreen_allowed :: bool

text \<open>
  The document the engine is started on: the \<^verbatim>\<open>.slide-section\<close> elements in document
  order as the markup has them, the inline width of the \<^verbatim>\<open>.progress-fill\<close> element (the
  text last assigned to \<^verbatim>\<open>style.width\<close>) and
  the content of the \<^verbatim>\<open>.page-counter\<close> element (\<open>None\<close> when the page has no such
  element), and whether the browser grants fullscreen requests.
\<close>

record document =
  doc_sections :: "slide_section list"
  doc_progress_fill :: "string option"
  doc_page_counter :: "string option"
  doc_fullscreen_allowed :: bool

subsection \<open>Array access and number formatting of the host language\<close>

text \<open>\<^verbatim>\<open>xs[i]\<close>: \<^verbatim>\<open>undefined\<close> outside the array.\<close>

definition js_index :: "'a list \<Rightarrow> int \<Rightarrow> nat option" where
  "js_index xs i = (if 0 \<le> i \<and> i < int (length xs) then Some (nat i) else None)"

definition digit :: "nat \<Rightarrow> char" where
  "digit d = ''0123456789'' ! d"

fun show_nat :: "nat \<Rightarrow> string" where
  "show_nat n = (if n < 10 then [digit n] else show_nat (n div 10) @ [digit (n mod 10)])"

declare show_nat.simps [simp del]

definition show_int :: "int \<Rightarrow> string" where
  "show_int i = (if i < 0 then CHR ''-'' # show_nat (nat (- i)) else show_nat (nat i))"

subsection \<open>Double arithmetic and the printing of numbers\<close>

text \<open>
  A finite double that is not negative is a pair \<open>(m, e)\<close> of integers standing for
  \<open>m * 2 ^ e\<close>, with \<open>m = 0\<close> or \<open>2 ^ 52 \<le> m < 2 ^ 53\<close>.  The exponent is not bounded:
  the quotients and products of the engine stay far inside the range of a double.
\<close>

type_synonym double = "int \<times> int"

definition double_value :: "double \<Rightarrow> rat" where
  "double_value x = of_int (fst x) * 2 powi (snd x)"

text \<open>
  \<open>normalize N D e\<close> scales the positive fraction \<open>N / D * 2 ^ e\<close> until
  \<open>2 ^ 52 \<le> N / D < 2 ^ 53\<close>.
\<close>

function normalize :: "int \<Rightarrow> int \<Rightarrow> int \<Rightarrow> int \<times> int \<times> int" where
  "normalize N D e =
     (if N \<le> 0 \<or> D \<le> 0 then (N, D, e)
      else if N < 4503599627370496 * D then normalize (2 * N) D (e - 1)
      else if 9007199254740992 * D \<le> N then normalize N (2 * D) (e + 1)
      else (N, D, e))"
  by pat_completeness auto
termination
  by (relation "measure (\<lambda>(N, D, e).
        nat (4503599627370496 * D - N) + nat (N - 9007199254740992 * D + 1))") auto

declare normalize.simps [simp del]

text \<open>The integer nearest to \<open>N / D\<close>, the even one of two that are equally near.\<close>

definition round_even :: "int \<Rightarrow> int \<Rightarrow> int" where
  "round_even N D =
     (let f = N div D; r = N mod D
      in if 2 * r < D then f else if D < 2 * r then f + 1 else if even f then f else f + 1)"

text \<open>The double nearest to \<open>N / D * 2 ^ e\<close> (round to nearest, ties to even).\<close>

definition to_double :: "int \<Rightarrow> int \<Rightarrow> int \<Rightarrow> double" where
  "to_double N D e =
     (case normalize N D e of
        (N', D', e') \<Rightarrow>
          let m = round_even N' D'
          in if m = 9007199254740992 then (4503599627370496, e' + 1) else (m, e'))"

text \<open>\<^verbatim>\<open>a / n\<close> and \<^verbatim>\<open>x * 100\<close> on doubles, for integers \<open>a \<ge> 0\<close> and \<open>n > 0\<close>.\<close>

definition js_divide :: "int \<Rightarrow> int \<Rightarrow> double" where
  "js_divide a n = to_double a n 0"

definition js_times100 :: "double \<Rightarrow> double" where
  "js_times100 x = to_double (fst x * 100) 1 (snd x)"

function pow2 :: "int \<Rightarrow> int" where
  "pow2 k = (if k \<le> 0 then 1 else 2 * pow2 (k - 1))"
  by pat_completeness auto
termination
  by (relation "measure nat") auto

declare pow2.simps [simp del]

function pow10 :: "int \<Rightarrow> int" where
  "pow10 k = (if k \<le> 0 then 1 else 10 * pow10 (k - 1))"
  by pat_completeness auto
termination
  by (relation "measure nat") auto

declare pow10.simps [simp del]

text \<open>The decimal exponent \<open>n\<close> of a positive fraction: \<open>10 ^ (n - 1) \<le> N / D < 10 ^ n\<close>.\<close>

function dec_exp :: "int \<Rightarrow> int \<Rightarrow> int \<Rightarrow> int" where
  "dec_exp N D n =
     (if N \<le> 0 \<or> D \<le> 0 then n
      else if N < D then dec_exp (10 * N) D (n - 1)
      else if 10 * D \<le> N then dec_exp N (10 * D) (n + 1)
      else n)"
  by pat_completeness auto
termination
  by (relation "measure (\<lambda>(N, D, n). nat (D - N) + nat (N - 10 * D + 1))") auto

declare dec_exp.simps [simp del]

text \<open>
  Number to string, as the language defines it: the digits \<open>s\<close> are the fewest, \<open>k\<close> of
  them, such that \<open>s * 10 ^ (n - k)\<close> is read back as the same double, and the nearest
  to it when two qualify.  \<open>candidate x n k\<close> tries the two integers around
  \<open>x / 10 ^ (n - k)\<close>; with 17 digits the nearer one always qualifies (\<open>final\<close>).
\<close>

definition candidate :: "double \<Rightarrow> int \<Rightarrow> int \<Rightarrow> bool \<Rightarrow> int option" where
  "candidate x n k final =
     (let Nx = fst x * pow2 (snd x); Dx = pow2 (- snd x);
          Ny = Nx * pow10 (k - n); Dy = Dx * pow10 (n - k);
          lo = Ny div Dy; r = Ny mod Dy; hi = lo + 1;
          ok_lo = (to_double (lo * pow10 (n - k)) (pow10 (k - n)) 0 = x);
          ok_hi = (to_double (hi * pow10 (n - k)) (pow10 (k - n)) 0 = x);
          lo_nearer = (2 * r < Dy \<or> (2 * r = Dy \<and> even lo))
      in if final then Some (if lo_nearer then lo else hi)
         else if ok_lo \<and> ok_hi then Some (if lo_nearer then lo else hi)
         else if ok_lo then Some lo
         else if ok_hi then Some hi
         else None)"

fun shortest :: "double \<Rightarrow> int \<Rightarrow> nat \<Rightarrow> int \<Rightarrow> int \<times> int" where
  "shortest x n 0 k = (case candidate x n k True of Some s \<Rightarrow> (s, k) | None \<Rightarrow> (0, k))"
| "shortest x n (Suc fuel) k =
     (case candidate x n k False of
        Some s \<Rightarrow> (s, k)
      | None \<Rightarrow> shortest x n fuel (k + 1))"

function show_pos :: "int \<Rightarrow> string" where
  "show_pos n =
     (if n < 10 then [digit (nat n)] else show_pos (n div 10) @ [digit (nat (n mod 10))])"
  by pat_completeness auto
termination
  by (relation "measure nat") auto

declare show_pos.simps [simp del]

definition number_to_string :: "double \<Rightarrow> string" where
  "number_to_string x =
     (if fst x = 0 then ''0''
      else
        let n0 = dec_exp (fst x * pow2 (snd x)) (pow2 (- snd x)) 1;
            (s0, k0) = shortest x n0 16 1;
            (s, k, n) = (if s0 = pow10 k0 then (1, 1, n0 + 1) else (s0, k0, n0));
            ds = show_pos s
        in if k \<le> n \<and> n \<le> 21 then ds @ replicate (nat (n - k)) CHR ''0''
           else if 0 < n \<and> n \<le> 21 then take (nat n) ds @ ''.'' @ drop (nat n) ds
           else if - 6 < n \<and> n \<le> 0 then ''0.'' @ replicate (nat (- n)) CHR ''0'' @ ds
           else (if k = 1 then ds else take 1 ds @ ''.'' @ drop 1 ds) @ ''e'' @
                (if 0 \<le> n - 1 then ''+'' else ''-'') @ show_pos \<bar>n - 1\<bar>)"

subsection \<open>animateSection, updateProgress, updateCounter\<close>

definition animateSection :: "slide_section \<Rightarrow> slide_section" where
  "animateSection sec = sec\<lparr>animated := map Suc (animated sec)\<rparr>"

definition classList_add :: "nat \<Rightarrow> engine \<Rightarrow> engine" where
  "classList_add r w = w\<lparr>sections := (sections w)[r := (sections w ! r)\<lparr>active := True\<rparr>]\<rparr>"

definition classList_remove :: "nat \<Rightarrow> engine \<Rightarrow> engine" where
  "classList_remove r w = w\<lparr>sections := (sections w)[r := (sections w ! r)\<lparr>active := False\<rparr>]\<rparr>"

definition animate :: "nat \<Rightarrow> engine \<Rightarrow> engine" where
  "animate r w = w\<lparr>sections := (sections w)[r := animateSection (sections w ! r)]\<rparr>"

text \<open>
  \<^verbatim>\<open>percent = ((currentIndex + 1) / totalSections) * 100\<close>, on doubles.  The assignment
  \<^verbatim>\<open>fill.style.width = percent + '%'\<close> is dropped by the style object when the text is
  not a valid width: a division by zero (\<^verbatim>\<open>Infinity%\<close>, \<^verbatim>\<open>NaN%\<close>) or a negative
  percentage.
\<close>

definition percent :: "int \<Rightarrow> nat \<Rightarrow> double" where
  "percent i n = js_times100 (js_divide (i + 1) (int n))"

definition percent_text :: "int \<Rightarrow> nat \<Rightarrow> string" where
  "percent_text i n = number_to_string (percent i n) @ ''%''"

definition updateProgress :: "engine \<Rightarrow> engine" where
  "updateProgress w =
     (case progress_fill w of
        None \<Rightarrow> w
      | Some old \<Rightarrow>
          if totalSections w = 0 \<or> currentIndex w + 1 < 0 then w
          else w\<lparr>progress_fill := Some (percent_text (currentIndex w) (totalSections w))\<rparr>)"

definition counter_html :: "int \<Rightarrow> nat \<Rightarrow> string" where
  \<open>counter_html i n =
     ''<span class="current">'' @ show_int (i + 1) @ ''</span> / '' @ show_nat n\<close>

definition updateCounter :: "engine \<Rightarrow> engine" where
  "updateCounter w =
     (case page_counter w of
        None \<Rightarrow> w
      | Some old \<Rightarrow> w\<lparr>page_counter := Some (counter_html (currentIndex w) (totalSections w))\<rparr>)"

text \<open>The text a piece of markup shows: the characters outside its tags.\<close>

fun strip_tags :: "bool \<Rightarrow> string \<Rightarrow> string" where
  "strip_tags in_tag [] = []"
| "strip_tags False (c # cs) =
     (if c = CHR ''<'' then strip_tags True cs else c # strip_tags False cs)"
| "strip_tags True (c # cs) =
     (if c = CHR ''>'' then strip_tags False cs else strip_tags True cs)"

definition textContent :: "string \<Rightarrow> string" where
  "textContent html = strip_tags False html"

subsection \<open>goTo, next, prev\<close>

definition goTo :: "int \<Rightarrow> engine \<Rightarrow> engine outcome" where
  "goTo index w =
     (if index = currentIndex w \<or> index < 0 \<or> index \<ge> int (totalSections w) \<or> isTransitioning w
      then Normal w
      else
        let w1 = w\<lparr>isTransitioning := True\<rparr>;
            currentSection = js_index (sections w1) (currentIndex w1);
            nextSection = js_index (sections w1) index
        in case currentSection of
             None \<Rightarrow> Uncaught TypeError w1
           | Some cur \<Rightarrow>
               let w2 = classList_remove cur w1
               in Normal (w2\<lparr>timers := timers w2 @ [(200, ShowNext nextSection index)]\<rparr>))"

definition "next" :: "engine \<Rightarrow> engine outcome" where
  "next w =
     (if isTransitioning w \<or> currentIndex w \<ge> int (totalSections w) - 1 then Normal w
      else goTo (currentIndex w + 1) w)"

definition prev :: "engine \<Rightarrow> engine outcome" where
  "prev w =
     (if isTransitioning w \<or> currentIndex w \<le> 0 then Normal w
      else goTo (currentIndex w - 1) w)"

text \<open>Running a callback of \<^verbatim>\<open>goTo\<close> when its timer expires.\<close>

fun run_callback :: "callback \<Rightarrow> engine \<Rightarrow> engine outcome" where
  "run_callback (ShowNext nextSection index) w =
     (case nextSection of
        None \<Rightarrow> Uncaught TypeError w
      | Some r \<Rightarrow>
          let w1 = classList_add r w;
              w2 = animate r w1;
              w3 = w2\<lparr>currentIndex := index\<rparr>;
              w4 = updateProgress w3;
              w5 = updateCounter w4
          in Normal (w5\<lparr>timers := timers w5 @ [(300, Unlock)]\<rparr>))"
| "run_callback Unlock w = Normal (w\<lparr>isTransitioning := False\<rparr>)"

subsection \<open>Input handlers\<close>

definition toggleFullscreen :: "engine \<Rightarrow> engine" where
  "toggleFullscreen w =
     (if \<not> fullscreenElement w
      then (if fullscreen_allowed w then w\<lparr>fullscreenElement := True\<rparr> else w)
      else w\<lparr>fullscreenElement := False\<rparr>)"

definition handleKeydown :: "string \<Rightarrow> engine \<Rightarrow> engine outcome" where
  "handleKeydown key w =
     (if key \<in> set [''ArrowRight'', ''ArrowDown'', '' '', ''PageDown''] then next w
      else if key \<in> set [''ArrowLeft'', ''ArrowUp'', ''PageUp''] then prev w
      else if key = ''Home'' then goTo 0 w
      else if key = ''End'' then goTo (int (totalSections w) - 1) w
      else if key \<in> set [''f'', ''F''] then Normal (toggleFullscreen w)
      else Normal w)"

text \<open>
  \<^verbatim>\<open>e.target.closest('a, button, input, select, textarea')\<close>: the click target is given
  by the tag names of the element and of its ancestors, innermost first.
\<close>

definition closest_interactive :: "string list \<Rightarrow> bool" where
  "closest_interactive chain =
     (\<exists>t \<in> set chain. t \<in> set [''a'', ''button'', ''input'', ''select'', ''textarea''])"

definition handleClick :: "string list \<Rightarrow> int \<Rightarrow> nat \<Rightarrow> engine \<Rightarrow> engine outcome" where
  "handleClick target x width w =
     (if closest_interactive target then Normal w
      else if (of_int x :: rat) > of_nat width * 0.65 then next w
      else if (of_int x :: rat) < of_nat width * 0.35 then prev w
      else Normal w)"

definition touchstart :: "int \<Rightarrow> int \<Rightarrow> engine \<Rightarrow> engine" where
  "touchstart x y w = w\<lparr>startX := x, startY := y\<rparr>"

definition touchend :: "int \<Rightarrow> int \<Rightarrow> engine \<Rightarrow> engine outcome" where
  "touchend endX endY w =
     (let diffX = startX w - endX;
          diffY = startY w - endY
      in if \<bar>diffX\<bar> > \<bar>diffY\<bar> \<and> \<bar>diffX\<bar> > 50
         then (if diffX > 0 then next w else prev w)
         else Normal w)"

subsection \<open>Initialization\<close>

text \<open>
  The constructor followed by the \<^verbatim>\<open>DOMContentLoaded\<close> handler of \<^verbatim>\<open>init\<close>: the section
  list and its length are captured; with no section the handler returns before
  anything else is done.  No listener of the engine is attached before this handler
  has run, so the states of the model start with its result.
\<close>

definition init :: "document \<Rightarrow> engine" where
  "init doc =
     (let w = \<lparr>sections = doc_sections doc, currentIndex = 0, isTransitioning = False,
               totalSections = length (doc_sections doc),
               progress_fill = doc_progress_fill doc, page_counter = doc_page_counter doc,
               listening = False, startX = 0, startY = 0, timers = [],
               fullscreenElement = False, fullscreen_allowed = doc_fullscreen_allowed doc\<rparr>
      in if totalSections w = 0 then w
         else
           let w1 = classList_add 0 w;
               w2 = updateProgress w1;
               w3 = updateCounter w2;
               w4 = w3\<lparr>listening := True\<rparr>
           in animate 0 w4)"

subsection \<open>Events\<close>

text \<open>
  What can happen to the page: an input event (handled only when the listeners are
  attached), the expiry of the \<open>k\<close>-th pending timer, and a direct call of one of the
  three navigation methods.
\<close>

datatype event =
    Keydown string
  | Click "string list" int nat
  | TouchStart int int
  | TouchEnd int int
  | Timeout nat
  | Call_goTo int
  | Call_next
  | Call_prev

fun dispatch :: "event \<Rightarrow> engine \<Rightarrow> engine outcome" where
  "dispatch (Keydown key) w = (if listening w then handleKeydown key w else Normal w)"
| "dispatch (Click target x width) w =
     (if listening w then handleClick target x width w else Normal w)"
| "dispatch (TouchStart x y) w = (if listening w then Normal (touchstart x y w) else Normal w)"
| "dispatch (TouchEnd x y) w = (if listening w then touchend x y w else Normal w)"
| "dispatch (Timeout k) w =
     (if k < length (timers w)
      then run_callback (snd (timers w ! k)) (w\<lparr>timers := take k (timers w) @ drop (Suc k) (timers w)\<rparr>)
      else Normal w)"
| "dispatch (Call_goTo index) w = goTo index w"
| "dispatch Call_next w = next w"
| "dispatch Call_prev w = prev w"

fun run :: "event list \<Rightarrow> engine \<Rightarrow> engine" where
  "run [] w = w"
| "run (e # es) w = run es (state_of (dispatch e w))"

text \<open>The delay window of a transition: the section to show is still waiting for its timer.\<close>

fun is_ShowNext :: "callback \<Rightarrow> bool" where
  "is_ShowNext (ShowNext r i) = True"
| "is_ShowNext Unlock = False"

definition in_delay_window :: "engine \<Rightarrow> bool" where
  "in_delay_window w = (\<exists>t \<in> set (timers w). is_ShowNext (snd t))"

definition active_count :: "engine \<Rightarrow> nat" where
  "active_count w = length (filter active (sections w))"

subsection \<open>Invariants of the reachable states\<close>

text \<open>
  Navigation: the index is in range, and the lock and the pending timers are in one of
  three phases: idle; faded out, waiting to show section \<open>k\<close>; shown, waiting for the
  lock to be released.
\<close>

definition nav_inv :: "engine \<Rightarrow> bool" where
  "nav_inv w \<longleftrightarrow>
     totalSections w = length (sections w) \<and> 0 \<le> currentIndex w \<and>
     currentIndex w < int (totalSections w) \<and> listening w \<and>
     ((\<not> isTransitioning w \<and> timers w = []) \<or>
      (isTransitioning w \<and>
       (\<exists>k. k < totalSections w \<and> timers w = [(200, ShowNext (Some k) (int k))])) \<or>
      (isTransitioning w \<and> timers w = [(300, Unlock)]))"

text \<open>The widgets the document has show the current index; the section count is the document's.\<close>

definition widget_inv :: "document \<Rightarrow> engine \<Rightarrow> bool" where
  "widget_inv doc w \<longleftrightarrow>
     totalSections w = length (doc_sections doc) \<and>
     page_counter w =
       map_option (\<lambda>old. counter_html (currentIndex w) (totalSections w)) (doc_page_counter doc) \<and>
     progress_fill w =
       map_option (\<lambda>old. percent_text (currentIndex w) (totalSections w)) (doc_progress_fill doc)"

text \<open>Outside the delay window the current section is the active one; inside it none is.\<close>

definition active_inv :: "engine \<Rightarrow> bool" where
  "active_inv w \<longleftrightarrow>
     (\<forall>i < length (sections w).
        active (sections w ! i) \<longleftrightarrow> \<not> in_delay_window w \<and> int i = currentIndex w)"

subsection \<open>Example documents\<close>

text \<open>A deck of five sections with both widgets, as in the scenarios of the specification.\<close>

definition deck5 :: document where
  "deck5 = \<lparr>doc_sections = replicate 5 \<lparr>active = False, animated = [0, 0]\<rparr>,
            doc_progress_fill = Some [], doc_page_counter = Some [],
            doc_fullscreen_allowed = True\<rparr>"

text \<open>A deck of twenty-five sections with a progress bar.\<close>

definition deck25 :: document where
  "deck25 = \<lparr>doc_sections = replicate 25 \<lparr>active = False, animated = []\<rparr>,
             doc_progress_fill = Some [], doc_page_counter = None,
             doc_fullscreen_allowed = False\<rparr>"

text \<open>A page without any section.\<close>

definition empty_page :: document where
  "empty_page = \<lparr>doc_sections = [], doc_progress_fill = Some [], doc_page_counter = Some [],
                 doc_fullscreen_allowed = True\<rparr>"

text \<open>A page whose markup already marks its second section active.\<close>

definition premarked_page :: document where
  "premarked_page =
     \<lparr>doc_sections = [\<lparr>active = False, animated = []\<rparr>, \<lparr>active = True, animated = []\<rparr>],
      doc_progress_fill = None, doc_page_counter = None, doc_fullscreen_allowed = False\<rparr>"

section \<open>Basic facts\<close>

lemma updateProgress_fields [simp]:
  "sections (updateProgress w) = sections w"
  "currentIndex (updateProgress w) = currentIndex w"
  "isTransitioning (updateProgress w) = isTransitioning w"
  "totalSections (updateProgress w) = totalSections w"
  "timers (updateProgress w) = timers w"
  "listening (updateProgress w) = listening w"
  "page_counter (updateProgress w) = page_counter w"
  by (simp_all add: updateProgress_def split: option.splits)

lemma updateCounter_fields [simp]:
  "sections (updateCounter w) = sections w"
  "currentIndex (updateCounter w) = currentIndex w"
  "isTransitioning (updateCounter w) = isTransitioning w"
  "totalSections (updateCounter w) = totalSections w"
  "timers (updateCounter w) = timers w"
  "listening (updateCounter w) = listening w"
  "progress_fill (updateCounter w) = progress_fill w"
  by (simp_all add: updateCounter_def split: option.splits)

lemma run_append: "run (es @ es') w = run es' (run es w)"
  by (induction es arbitrary: w) simp_all

text \<open>
  Every handler ends in \<open>goTo\<close>, the fullscreen toggle, the touch start or a timer, so a
  property kept by these four is kept by every event.
\<close>

lemma dispatch_preserves:
  assumes "P w"
    and "\<And>i. P (state_of (goTo i w))"
    and "P (toggleFullscreen w)"
    and "\<And>x y. P (touchstart x y w)"
    and "\<And>k. P (state_of (dispatch (Timeout k) w))"
  shows "P (state_of (dispatch e w))"
proof (cases e)
  case (Keydown key)
  with assms(1-3) show ?thesis
    by (simp add: handleKeydown_def next_def prev_def)
next
  case (Click t x wd)
  with assms(1,2) show ?thesis
    by (simp add: handleClick_def next_def prev_def)
next
  case (TouchStart x y)
  with assms(1,4) show ?thesis by simp
next
  case (TouchEnd x y)
  with assms(1,2) show ?thesis
    by (simp add: touchend_def Let_def next_def prev_def)
next
  case (Timeout k)
  with assms(5) show ?thesis by simp
next
  case (Call_goTo i)
  with assms(2) show ?thesis by simp
next
  case Call_next
  with assms(1,2) show ?thesis by (simp add: next_def)
next
  case Call_prev
  with assms(1,2) show ?thesis by (simp add: prev_def)
qed

subsection \<open>The navigation invariant\<close>

lemma goTo_nav: "nav_inv w \<Longrightarrow> nav_inv (state_of (goTo i w))"
  by (auto simp: nav_inv_def goTo_def Let_def js_index_def classList_remove_def
      split: option.splits)

lemma timer_phases:
  assumes "nav_inv w" and "k < length (timers w)"
  obtains (fade) j where "k = 0" "isTransitioning w" "j < totalSections w"
      "timers w = [(200, ShowNext (Some j) (int j))]"
    | (shown) "k = 0" "isTransitioning w" "timers w = [(300, Unlock)]"
  using assms by (auto simp: nav_inv_def)

lemma timeout_nav: "nav_inv w \<Longrightarrow> nav_inv (state_of (dispatch (Timeout k) w))"
proof (cases "k < length (timers w)")
  case False
  then show "nav_inv w \<Longrightarrow> ?thesis" by simp
next
  case True
  assume inv: "nav_inv w"
  from inv True show ?thesis
  proof (cases rule: timer_phases)
    case (fade j)
    with inv show ?thesis
      by (simp add: nav_inv_def Let_def classList_add_def animate_def)
  next
    case shown
    with inv show ?thesis
      by (simp add: nav_inv_def)
  qed
qed

lemma dispatch_nav:
  assumes "nav_inv w"
  shows "nav_inv (state_of (dispatch e w))"
proof (rule dispatch_preserves)
  show "nav_inv w" by (rule assms)
  show "nav_inv (state_of (goTo i w))" for i
    using assms by (rule goTo_nav)
  show "nav_inv (toggleFullscreen w)"
    using assms by (auto simp: nav_inv_def toggleFullscreen_def)
  show "nav_inv (touchstart x y w)" for x y
    using assms by (auto simp: nav_inv_def touchstart_def)
  show "nav_inv (state_of (dispatch (Timeout k) w))" for k
    using assms by (rule timeout_nav)
qed

lemma run_nav: "nav_inv w \<Longrightarrow> nav_inv (run es w)"
  by (induction es arbitrary: w) (simp_all add: dispatch_nav)

lemma init_nav: "doc_sections doc \<noteq> [] \<Longrightarrow> nav_inv (init doc)"
  by (simp add: init_def nav_inv_def Let_def animate_def classList_add_def)

lemma reachable_nav: "doc_sections doc \<noteq> [] \<Longrightarrow> nav_inv (run es (init doc))"
  by (simp add: init_nav run_nav)

subsection \<open>The widget invariant\<close>

lemma goTo_widget: "widget_inv doc w \<Longrightarrow> widget_inv doc (state_of (goTo i w))"
  by (auto simp: widget_inv_def goTo_def Let_def classList_remove_def split: option.splits)

lemma timeout_widget:
  assumes "nav_inv w" and "widget_inv doc w"
  shows "widget_inv doc (state_of (dispatch (Timeout k) w))"
proof (cases "k < length (timers w)")
  case False
  with assms show ?thesis by simp
next
  case True
  from assms(1) True show ?thesis
  proof (cases rule: timer_phases)
    case (fade j)
    with assms show ?thesis
      by (auto simp: widget_inv_def Let_def classList_add_def animate_def updateProgress_def
          updateCounter_def split: option.splits)
  next
    case shown
    with assms show ?thesis
      by (simp add: widget_inv_def)
  qed
qed

lemma dispatch_widget:
  assumes "nav_inv w" and "widget_inv doc w"
  shows "widget_inv doc (state_of (dispatch e w))"
proof (rule dispatch_preserves)
  show "widget_inv doc w" by (rule assms(2))
  show "widget_inv doc (toggleFullscreen w)"
    using assms(2) by (simp add: widget_inv_def toggleFullscreen_def)
  show "widget_inv doc (touchstart x y w)" for x y
    using assms(2) by (simp add: widget_inv_def touchstart_def)
  show "widget_inv doc (state_of (goTo i w))" for i
    using assms(2) by (rule goTo_widget)
  show "widget_inv doc (state_of (dispatch (Timeout k) w))" for k
    using assms by (rule timeout_widget)
qed

lemma run_widget: "nav_inv w \<Longrightarrow> widget_inv doc w \<Longrightarrow> widget_inv doc (run es w)"
  by (induction es arbitrary: w) (simp_all add: dispatch_nav dispatch_widget)

lemma init_widget: "doc_sections doc \<noteq> [] \<Longrightarrow> widget_inv doc (init doc)"
  by (auto simp: init_def widget_inv_def Let_def animate_def classList_add_def
      updateProgress_def updateCounter_def split: option.splits)

lemma reachable_widget: "doc_sections doc \<noteq> [] \<Longrightarrow> widget_inv doc (run es (init doc))"
  by (simp add: init_nav init_widget run_widget)

subsection \<open>The active-flag invariant\<close>

lemma goTo_active: "nav_inv w \<Longrightarrow> active_inv w \<Longrightarrow> active_inv (state_of (goTo i w))"
  by (auto simp: nav_inv_def active_inv_def in_delay_window_def goTo_def Let_def js_index_def
      classList_remove_def nth_list_update split: option.splits if_splits)

lemma timeout_active:
  assumes "nav_inv w" and "active_inv w"
  shows "active_inv (state_of (dispatch (Timeout k) w))"
proof (cases "k < length (timers w)")
  case False
  with assms show ?thesis by simp
next
  case True
  from assms(1) True show ?thesis
  proof (cases rule: timer_phases)
    case (fade j)
    with assms show ?thesis
      by (auto simp: nav_inv_def active_inv_def in_delay_window_def Let_def classList_add_def
          animate_def animateSection_def nth_list_update split: if_splits)
  next
    case shown
    with assms show ?thesis
      by (simp add: active_inv_def in_delay_window_def)
  qed
qed

lemma dispatch_active:
  assumes "nav_inv w" and "active_inv w"
  shows "active_inv (state_of (dispatch e w))"
proof (rule dispatch_preserves)
  show "active_inv w" by (rule assms(2))
  show "active_inv (toggleFullscreen w)"
    using assms(2) by (simp add: active_inv_def in_delay_window_def toggleFullscreen_def)
  show "active_inv (touchstart x y w)" for x y
    using assms(2) by (simp add: active_inv_def in_delay_window_def touchstart_def)
  show "active_inv (state_of (goTo i w))" for i
    using assms by (rule goTo_active)
  show "active_inv (state_of (dispatch (Timeout k) w))" for k
    using assms by (rule timeout_active)
qed

lemma run_active: "nav_inv w \<Longrightarrow> active_inv w \<Longrightarrow> active_inv (run es w)"
  by (induction es arbitrary: w) (simp_all add: dispatch_nav dispatch_active)

lemma init_active:
  assumes "doc_sections doc \<noteq> []" and "\<forall>s \<in> set (tl (doc_sections doc)). \<not> active s"
  shows "active_inv (init doc)"
proof -
  obtain s ss where d: "doc_sections doc = s # ss"
    using assms(1) by (cases "doc_sections doc") auto
  with assms(2) have "\<forall>i < length ss. \<not> active (ss ! i)" by simp
  with d show ?thesis
    by (auto simp: init_def active_inv_def in_delay_window_def Let_def animate_def
        classList_add_def animateSection_def nth_Cons split: nat.splits)
qed

lemma active_count_one:
  assumes "nav_inv w" and "active_inv w" and "\<not> in_delay_window w"
  shows "active_count w = 1"
proof -
  from assms(1) have r: "nat (currentIndex w) < length (sections w)" "0 \<le> currentIndex w"
    by (auto simp: nav_inv_def)
  have "{i. i < length (sections w) \<and> active (sections w ! i)} = {nat (currentIndex w)}"
    using assms(2,3) r by (auto simp: active_inv_def)
  then show ?thesis
    by (simp add: active_count_def length_filter_conv_card)
qed

subsection \<open>A page without sections\<close>

lemma init_empty:
  "doc_sections doc = [] \<Longrightarrow>
   init doc = \<lparr>sections = [], currentIndex = 0, isTransitioning = False, totalSections = 0,
               progress_fill = doc_progress_fill doc, page_counter = doc_page_counter doc,
               listening = False, startX = 0, startY = 0, timers = [],
               fullscreenElement = False, fullscreen_allowed = doc_fullscreen_allowed doc\<rparr>"
  by (simp add: init_def)

lemma dispatch_empty: "doc_sections doc = [] \<Longrightarrow> dispatch e (init doc) = Normal (init doc)"
  by (cases e) (auto simp: init_empty goTo_def next_def prev_def)

lemma run_fixed: "(\<And>e. dispatch e w = Normal w) \<Longrightarrow> run es w = w"
  by (induction es) simp_all

subsection \<open>A transition runs to completion\<close>

lemma goTo_completes:
  assumes "nav_inv w" and "\<not> isTransitioning w"
    and "0 \<le> i" and "i < int (totalSections w)" and "i \<noteq> currentIndex w"
  shows "currentIndex (run [Timeout 0, Timeout 0] (state_of (goTo i w))) = i"
    and "\<not> isTransitioning (run [Timeout 0, Timeout 0] (state_of (goTo i w)))"
    and "timers (run [Timeout 0, Timeout 0] (state_of (goTo i w))) = []"
    and "currentIndex (run [Timeout 0] (state_of (goTo i w))) = i"
    and "isTransitioning (run [Timeout 0] (state_of (goTo i w)))"
    and "isTransitioning (state_of (goTo i w))"
    and "currentIndex (state_of (goTo i w)) = currentIndex w"
  using assms
  by (auto simp: nav_inv_def goTo_def Let_def js_index_def classList_remove_def classList_add_def
      animate_def)

lemma next_completes:
  assumes "nav_inv w" and "\<not> isTransitioning w"
  shows "currentIndex (run [Timeout 0, Timeout 0] (state_of (next w))) =
           (if currentIndex w < int (totalSections w) - 1 then currentIndex w + 1 else currentIndex w)"
proof (cases "currentIndex w < int (totalSections w) - 1")
  case True
  with assms have "currentIndex (run [Timeout 0, Timeout 0] (state_of (goTo (currentIndex w + 1) w))) = currentIndex w + 1"
    by (intro goTo_completes) (auto simp: nav_inv_def)
  with True assms show ?thesis by (simp add: next_def)
next
  case False
  with assms show ?thesis by (auto simp: next_def nav_inv_def)
qed

lemma prev_completes:
  assumes "nav_inv w" and "\<not> isTransitioning w"
  shows "currentIndex (run [Timeout 0, Timeout 0] (state_of (prev w))) =
           (if 0 < currentIndex w then currentIndex w - 1 else currentIndex w)"
proof (cases "0 < currentIndex w")
  case True
  with assms have "currentIndex (run [Timeout 0, Timeout 0] (state_of (goTo (currentIndex w - 1) w))) = currentIndex w - 1"
    by (intro goTo_completes) (auto simp: nav_inv_def)
  with True assms show ?thesis by (simp add: prev_def)
next
  case False
  with assms show ?thesis by (auto simp: prev_def nav_inv_def)
qed

subsection \<open>The click thresholds in whole pixels\<close>

lemma click_right: "((of_nat width :: rat) * 0.65 < of_int x) = (65 * int width < 100 * x)"
proof -
  have "((of_nat width :: rat) * 0.65 < of_int x) = ((of_int (65 * int width) :: rat) < of_int (100 * x))"
    by (simp add: mult.commute)
  then show ?thesis by (simp only: of_int_less_iff)
qed

lemma click_left: "((of_int x :: rat) < of_nat width * 0.35) = (100 * x < 35 * int width)"
proof -
  have "((of_int x :: rat) < of_nat width * 0.35) = ((of_int (100 * x) :: rat) < of_int (35 * int width))"
    by (simp add: mult.commute)
  then show ?thesis by (simp only: of_int_less_iff)
qed

subsection \<open>Rounding to a double\<close>

lemma normalize_spec:
  assumes "0 < N" and "0 < D" and "normalize N D e = (N', D', e')"
  shows "0 < D' \<and> 4503599627370496 * D' \<le> N' \<and> N' < 9007199254740992 * D' \<and>
         (of_int N' / of_int D') * 2 powi e' = ((of_int N / of_int D) * 2 powi e :: rat)"
  using assms
proof (induction N D e rule: normalize.induct)
  case (1 N D e)
  show ?case
  proof (cases "N < 4503599627370496 * D")
    case True
    with 1(3,4) have n: "normalize (2 * N) D (e - 1) = (N', D', e')"
      using 1(5) by (simp add: normalize.simps [of N D e])
    have "0 < D' \<and> 4503599627370496 * D' \<le> N' \<and> N' < 9007199254740992 * D' \<and>
         (of_int N' / of_int D') * 2 powi e' = ((of_int (2 * N) / of_int D) * 2 powi (e - 1) :: rat)"
      using 1(1) [OF _ True _ _ n] 1(3,4) by simp
    moreover have "((of_int (2 * N) / of_int D) * 2 powi (e - 1) :: rat) = (of_int N / of_int D) * 2 powi e"
      by (simp add: power_int_diff)
    ultimately show ?thesis by simp
  next
    case False
    show ?thesis
    proof (cases "9007199254740992 * D \<le> N")
      case True
      with False 1(3,4) have n: "normalize N (2 * D) (e + 1) = (N', D', e')"
        using 1(5) by (simp add: normalize.simps [of N D e])
      have "0 < D' \<and> 4503599627370496 * D' \<le> N' \<and> N' < 9007199254740992 * D' \<and>
         (of_int N' / of_int D') * 2 powi e' = ((of_int N / of_int (2 * D)) * 2 powi (e + 1) :: rat)"
        using 1(2) [OF _ False True _ _ n] 1(3,4) by simp
      moreover have "((of_int N / of_int (2 * D)) * 2 powi (e + 1) :: rat) = (of_int N / of_int D) * 2 powi e"
        by (simp add: power_int_add)
      ultimately show ?thesis by simp
    next
      case True2: False
      with False 1(3,4) have "(N', D', e') = (N, D, e)"
        using 1(5) by (simp add: normalize.simps [of N D e])
      with False True2 1(3,4) show ?thesis by simp
    qed
  qed
qed

lemma round_even_near:
  assumes "0 < D"
  shows "\<bar>of_int (round_even N D) - (of_int N / of_int D :: rat)\<bar> \<le> 1 / 2"
proof -
  define f where "f = N div D"
  define r where "r = N mod D"
  have N: "N = f * D + r" and r: "0 \<le> r" "r < D"
    using assms by (simp_all add: f_def r_def)
  have q: "(of_int N / of_int D :: rat) = of_int f + of_int r / of_int D"
    using assms by (simp add: N field_simps)
  have D: "(0 :: rat) < of_int D" using assms by simp
  have r': "(0 :: rat) \<le> of_int r" "(of_int r :: rat) < of_int D" using r by simp_all
  consider (lo) "2 * r < D" | (hi) "D < 2 * r" | (tie) "2 * r = D" by linarith
  then show ?thesis
  proof cases
    case lo
    then have "round_even N D = f" by (simp add: round_even_def Let_def f_def r_def)
    moreover from lo have "(2 * of_int r :: rat) < of_int D"
      by (metis of_int_less_iff of_int_mult of_int_numeral)
    ultimately show ?thesis using D r' by (simp add: q field_simps)
  next
    case hi
    then have "round_even N D = f + 1" by (simp add: round_even_def Let_def f_def r_def)
    moreover from hi have "(of_int D :: rat) < 2 * of_int r"
      by (metis of_int_less_iff of_int_mult of_int_numeral)
    ultimately show ?thesis using D r' by (simp add: q field_simps abs_if)
  next
    case tie
    then have "round_even N D = f \<or> round_even N D = f + 1"
      by (simp add: round_even_def Let_def f_def r_def)
    moreover from tie have "(2 * of_int r :: rat) = of_int D"
      by (metis of_int_mult of_int_numeral)
    ultimately show ?thesis using D by (auto simp: q field_simps abs_if)
  qed
qed


lemma round_even_mono:
  assumes "0 < D" and "k * D \<le> N"
  shows "k \<le> round_even N D"
proof -
  from assms have "k \<le> N div D"
    by (metis mult.commute pos_imp_zdiv_nonneg_iff zdiv_mono1 nonzero_mult_div_cancel_right less_irrefl)
  then show ?thesis by (auto simp: round_even_def Let_def)
qed

lemma to_double_near:
  assumes "0 < N" and "0 < D"
  shows "\<bar>double_value (to_double N D e) - (of_int N / of_int D) * 2 powi e\<bar>
           \<le> (of_int N / of_int D) * 2 powi e / 9007199254740992 \<and>
         0 < fst (to_double N D e)"
proof -
  obtain N' D' e' where n: "normalize N D e = (N', D', e')"
    by (cases "normalize N D e") auto
  from normalize_spec [OF assms n]
  have D': "0 < D'" and lo: "4503599627370496 * D' \<le> N'"
    and eq: "(of_int N' / of_int D') * 2 powi e' = ((of_int N / of_int D) * 2 powi e :: rat)"
    by simp_all
  define m where "m = round_even N' D'"
  define y :: rat where "y = of_int N' / of_int D'"
  have near: "\<bar>of_int m - y\<bar> \<le> 1 / 2"
    unfolding m_def y_def using D' by (rule round_even_near)
  have big: "4503599627370496 \<le> y"
  proof -
    have "(of_int (4503599627370496 * D') :: rat) \<le> of_int N'"
      using lo by (simp only: of_int_le_iff)
    then show ?thesis using D' by (simp add: y_def field_simps)
  qed
  have mpos: "4503599627370496 \<le> m"
    unfolding m_def using D' lo by (rule round_even_mono)
  have val: "double_value (to_double N D e) = of_int m * 2 powi e'"
    by (simp add: to_double_def n m_def [symmetric] Let_def double_value_def power_int_add)
  have fst: "0 < fst (to_double N D e)"
    using mpos by (simp add: to_double_def n m_def [symmetric] Let_def)
  have p: "(0 :: rat) < 2 powi e'" by simp
  have "\<bar>of_int m * 2 powi e' - y * 2 powi e'\<bar> = \<bar>of_int m - y\<bar> * 2 powi e'"
    using p by (simp add: abs_mult left_diff_distrib [symmetric])
  also have "\<dots> \<le> (y / 9007199254740992) * 2 powi e'"
  proof (rule mult_right_mono)
    show "\<bar>of_int m - y\<bar> \<le> y / 9007199254740992" using near big by simp
    show "(0 :: rat) \<le> 2 powi e'" by simp
  qed
  finally have "\<bar>of_int m * 2 powi e' - y * 2 powi e'\<bar> \<le> y * 2 powi e' / 9007199254740992"
    by simp
  then show ?thesis
    using fst unfolding val eq [symmetric] y_def by simp
qed

lemma percent_near:
  assumes "0 \<le> i" and "0 < n"
  shows "\<bar>double_value (percent i n) - of_int (i + 1) / of_nat n * 100\<bar>
           \<le> of_int (i + 1) / of_nat n * 100 / 2 ^ 51"
proof -
  define x :: rat where "x = of_int (i + 1) / of_nat n"
  define q where "q = js_divide (i + 1) (int n)"
  have xpos: "0 < x" using assms by (simp add: x_def)
  have a: "0 < i + 1" "0 < int n" using assms by simp_all
  from to_double_near [OF a, of 0]
  have q1: "\<bar>double_value q - x\<bar> \<le> x / 9007199254740992" and q2: "0 < fst q"
    by (simp_all add: q_def js_divide_def x_def)
  have b: "0 < fst q * 100" "(0 :: int) < 1" using q2 by simp_all
  have v: "(of_int (fst q * 100) / of_int 1) * 2 powi (snd q) = (double_value q * 100 :: rat)"
    by (simp add: double_value_def)
  from to_double_near [OF b, of "snd q"]
  have p1: "\<bar>double_value (percent i n) - double_value q * 100\<bar> \<le> double_value q * 100 / 9007199254740992"
    unfolding v by (simp add: percent_def js_times100_def q_def)
  from q1 have q3: "double_value q \<le> x + x / 9007199254740992" by linarith
  have "\<bar>double_value (percent i n) - x * 100\<bar>
        \<le> \<bar>double_value (percent i n) - double_value q * 100\<bar> + \<bar>double_value q * 100 - x * 100\<bar>"
    by simp
  also have "\<dots> \<le> double_value q * 100 / 9007199254740992 + 100 * (x / 9007199254740992)"
  proof -
    have "\<bar>(double_value q - x) * 100\<bar> = \<bar>double_value q - x\<bar> * \<bar>100\<bar>"
      by (rule abs_mult)
    then have "\<bar>double_value q * 100 - x * 100\<bar> = \<bar>double_value q - x\<bar> * 100"
      by (simp only: left_diff_distrib abs_numeral)
    with p1 q1 show ?thesis by linarith
  qed
  also have "\<dots> \<le> (x + x / 9007199254740992) * 100 / 9007199254740992 + 100 * (x / 9007199254740992)"
    using q3 by (simp add: divide_right_mono)
  also have "\<dots> \<le> x * 100 / 2 ^ 51"
    using xpos by (simp add: field_simps)
  finally show ?thesis by (simp add: x_def)
qed

subsection \<open>The text of the counter\<close>

lemma no_tag_digit: "d < 10 \<Longrightarrow> CHR ''<'' \<noteq> digit d"
proof -
  assume "d < 10"
  then have "digit d \<in> set ''0123456789''"
    unfolding digit_def by (intro nth_mem) simp
  then show ?thesis by auto
qed

lemma no_tag_show_nat: "CHR ''<'' \<notin> set (show_nat n)"
proof (induction n rule: show_nat.induct)
  case (1 n)
  show ?case
  proof (cases "n < 10")
    case True
    then show ?thesis by (simp add: show_nat.simps [of n] no_tag_digit)
  next
    case False
    with 1 have "CHR ''<'' \<notin> set (show_nat (n div 10))" by simp
    moreover have "CHR ''<'' \<noteq> digit (n mod 10)" by (rule no_tag_digit) simp
    ultimately show ?thesis using False by (simp add: show_nat.simps [of n])
  qed
qed

lemma no_tag_show_int: "CHR ''<'' \<notin> set (show_int i)"
  by (simp add: show_int_def no_tag_show_nat)

lemma strip_tags_plain:
  "CHR ''<'' \<notin> set s \<Longrightarrow> strip_tags False (s @ rest) = s @ strip_tags False rest"
  by (induction s) auto

lemma textContent_counter_html:
  "textContent (counter_html i n) = show_int (i + 1) @ '' / '' @ show_nat n"
proof -
  have "strip_tags False (show_nat n) = show_nat n"
    using strip_tags_plain [of "show_nat n" "[]"] by (simp add: no_tag_show_nat)
  then have "strip_tags False (''</span> / '' @ show_nat n) = '' / '' @ show_nat n"
    by simp
  then have "strip_tags False (show_int (i + 1) @ ''</span> / '' @ show_nat n)
    = show_int (i + 1) @ '' / '' @ show_nat n"
    by (simp only: strip_tags_plain [OF no_tag_show_int])
  then show ?thesis
    by (simp add: textContent_def counter_html_def)
qed

lemma goTo_keeps_index: "currentIndex (state_of (goTo i w)) = currentIndex w"
  by (auto simp: goTo_def Let_def classList_remove_def split: option.splits)

subsection \<open>No exception in a reachable state\<close>

lemma goTo_no_throw: "nav_inv w \<Longrightarrow> \<not> threw (goTo i w)"
  by (auto simp: nav_inv_def goTo_def Let_def js_index_def split: option.splits)

lemma timeout_no_throw:
  assumes "nav_inv w"
  shows "\<not> threw (dispatch (Timeout k) w)"
proof (cases "k < length (timers w)")
  case False
  then show ?thesis by simp
next
  case True
  from assms True show ?thesis
    by (cases rule: timer_phases) (simp_all add: Let_def)
qed

lemma dispatch_no_throw:
  assumes "nav_inv w"
  shows "\<not> threw (dispatch e w)"
proof (cases e)
  case (Timeout k)
  show ?thesis unfolding Timeout using assms by (rule timeout_no_throw)
next
  case (Keydown key)
  with assms show ?thesis
    by (simp add: handleKeydown_def next_def prev_def goTo_no_throw)
next
  case (Click t x wd)
  with assms show ?thesis
    by (simp add: handleClick_def next_def prev_def goTo_no_throw)
next
  case (TouchEnd x y)
  with assms show ?thesis
    by (simp add: touchend_def Let_def next_def prev_def goTo_no_throw)
qed (simp_all add: assms next_def prev_def goTo_no_throw)

lemma reachable_no_throw:
  "doc_sections doc \<noteq> [] \<Longrightarrow> \<not> threw (dispatch e (run es (init doc)))"
  by (simp only: reachable_nav dispatch_no_throw not_False_eq_True)

subsection \<open>Calls that change nothing\<close>

lemma run_noop: "dispatch e w = Normal w \<Longrightarrow> run (replicate k e) w = w"
  by (induction k) simp_all

lemma run_empty: "doc_sections doc = [] \<Longrightarrow> run es (init doc) = init doc"
  by (rule run_fixed) (rule dispatch_empty)

lemma next_locked: "isTransitioning v \<Longrightarrow> next v = Normal v"
  by (simp add: next_def)

lemma next_twice: "next (state_of (next v)) = Normal (state_of (next v))"
proof (cases "next v = Normal v")
  case True
  then show ?thesis by simp
next
  case False
  then have "isTransitioning (state_of (next v))"
    by (auto simp: next_def goTo_def Let_def classList_remove_def split: option.splits if_splits)
  then show ?thesis by (rule next_locked)
qed

section \<open>The claims\<close>

text \<open>
  Claim C1 (range invariant).  In every state reached from the initialization on a
  document with at least one section, by any sequence of input events, timer expiries
  and direct calls of \<open>goTo\<close>, \<open>next\<close> and \<open>prev\<close>, the current index lies between
  \<open>0\<close> and the section count minus one, and the section count stays the number of
  sections of the document.  A call of \<open>goTo\<close> with any integer leaves the index as it
  is when it returns, and whatever happens afterwards (the timers it started included)
  the index stays in range.
\<close>

theorem currentIndex_in_range:
  assumes "doc_sections doc \<noteq> []"
  shows "0 \<le> currentIndex (run es (init doc)) \<and>
         currentIndex (run es (init doc)) < int (totalSections (run es (init doc))) \<and>
         totalSections (run es (init doc)) = length (doc_sections doc) \<and>
         currentIndex (state_of (goTo i (run es (init doc)))) = currentIndex (run es (init doc)) \<and>
         0 \<le> currentIndex (run (Call_goTo i # es') (run es (init doc))) \<and>
         currentIndex (run (Call_goTo i # es') (run es (init doc))) < int (length (doc_sections doc))"
proof -
  have inv: "nav_inv (run xs (init doc))" "widget_inv doc (run xs (init doc))" for xs
    using assms by (simp_all add: reachable_nav reachable_widget)
  have later: "run (Call_goTo i # es') (run es (init doc)) = run (es @ Call_goTo i # es') (init doc)"
    by (simp only: run_append)
  from inv [of es] inv [of "es @ Call_goTo i # es'"] show ?thesis
    unfolding later by (simp add: nav_inv_def widget_inv_def goTo_keeps_index)
qed

theorem currentIndex_in_range_witness:
  "doc_sections deck5 \<noteq> [] \<and>
   currentIndex (run [Call_goTo 7, Call_goTo 3, Timeout 0] (init deck5)) = 3 \<and>
   totalSections (run [Call_goTo 7, Call_goTo 3, Timeout 0] (init deck5)) = 5 \<and>
   0 \<le> currentIndex (run [Call_goTo 9, Timeout 0, Timeout 0]
          (run [Call_goTo 7, Call_goTo 3, Timeout 0] (init deck5))) \<and>
   currentIndex (run [Call_goTo 9, Timeout 0, Timeout 0]
          (run [Call_goTo 7, Call_goTo 3, Timeout 0] (init deck5))) < 5"
proof -
  have h: "doc_sections deck5 \<noteq> []" by (simp add: deck5_def)
  have v: "currentIndex (run [Call_goTo 7, Call_goTo 3, Timeout 0] (init deck5)) = 3"
    by code_simp
  have l: "length (doc_sections deck5) = 5" by (simp add: deck5_def)
  from currentIndex_in_range [OF h, of "[Call_goTo 7, Call_goTo 3, Timeout 0]" 9 "[Timeout 0, Timeout 0]"]
  show ?thesis using h v l by simp
qed

text \<open>
  Claim C2 (debounce).  In every state, a second \<open>next\<close> issued right after a first one
  returns the state unchanged: two calls in immediate succession are one call, and
  nothing is queued; and \<open>next\<close> issued while the lock is set returns the state
  unchanged.  In a reachable state in which the first \<open>next\<close> is accepted (no transition
  in flight, current index below the last), whether the second call comes at once or
  after the first timer, the index has advanced by exactly one when the two timers have
  run, the lock is clear and no timer is pending.
\<close>

theorem double_next_advances_once:
  "next (state_of (next v)) = Normal (state_of (next v)) \<and>
   run [Call_next, Call_next] v = run [Call_next] v \<and>
   (isTransitioning v \<longrightarrow> next v = Normal v) \<and>
   (w = run es (init doc) \<and> \<not> isTransitioning w \<and> currentIndex w < int (totalSections w) - 1 \<longrightarrow>
      currentIndex (run [Call_next, Call_next, Timeout 0, Timeout 0] w) = currentIndex w + 1 \<and>
      currentIndex (run [Call_next, Timeout 0, Call_next, Timeout 0] w) = currentIndex w + 1 \<and>
      \<not> isTransitioning (run [Call_next, Call_next, Timeout 0, Timeout 0] w) \<and>
      timers (run [Call_next, Call_next, Timeout 0, Timeout 0] w) = [])"
proof -
  have accepted:
    "currentIndex (run [Call_next, Call_next, Timeout 0, Timeout 0] w) = currentIndex w + 1 \<and>
     currentIndex (run [Call_next, Timeout 0, Call_next, Timeout 0] w) = currentIndex w + 1 \<and>
     \<not> isTransitioning (run [Call_next, Call_next, Timeout 0, Timeout 0] w) \<and>
     timers (run [Call_next, Call_next, Timeout 0, Timeout 0] w) = []"
    if reach: "w = run es (init doc)" and idle: "\<not> isTransitioning w"
      and below: "currentIndex w < int (totalSections w) - 1"
  proof -
    have ne: "doc_sections doc \<noteq> []"
    proof
      assume "doc_sections doc = []"
      then have "w = init doc" "currentIndex (init doc) = 0" "totalSections (init doc) = 0"
        using reach by (simp_all only: run_empty) (simp_all add: init_empty)
      with below show False by simp
    qed
    then have inv: "nav_inv w" using reach by (simp add: reachable_nav)
    let ?i = "currentIndex w + 1"
    have rng: "0 \<le> ?i" "?i < int (totalSections w)" "?i \<noteq> currentIndex w"
      using inv below by (auto simp: nav_inv_def)
    have nx: "next w = goTo ?i w" using idle below by (simp add: next_def)
    note fin = goTo_completes [OF inv idle rng]
    have d1: "next (state_of (goTo ?i w)) = Normal (state_of (goTo ?i w))"
      using fin(6) by (rule next_locked)
    have d2: "next (run [Timeout 0] (state_of (goTo ?i w))) = Normal (run [Timeout 0] (state_of (goTo ?i w)))"
      using fin(5) by (rule next_locked)
    have r1: "run [Call_next, Call_next, Timeout 0, Timeout 0] w = run [Timeout 0, Timeout 0] (state_of (goTo ?i w))"
      using nx d1 by simp
    have r2: "run [Call_next, Timeout 0, Call_next, Timeout 0] w = run [Timeout 0, Timeout 0] (state_of (goTo ?i w))"
      using nx d2 by simp
    show ?thesis
      unfolding r1 r2 using fin(1,2,3) by simp
  qed
  have twice: "run [Call_next, Call_next] v = run [Call_next] v"
    by (simp add: next_twice)
  from accepted twice next_twice next_locked show ?thesis by blast
qed

theorem double_next_advances_once_witness:
  "\<not> isTransitioning (init deck5) \<and> currentIndex (init deck5) = 0 \<and>
   isTransitioning (state_of (next (init deck5))) \<and>
   next (state_of (next (init deck5))) = Normal (state_of (next (init deck5))) \<and>
   currentIndex (run [Call_next, Call_next, Timeout 0, Timeout 0] (init deck5)) = 1 \<and>
   currentIndex (run [Call_next, Timeout 0, Call_next, Timeout 0] (init deck5)) = 1 \<and>
   \<not> isTransitioning (run [Call_next, Call_next, Timeout 0, Timeout 0] (init deck5)) \<and>
   timers (run [Call_next, Call_next, Timeout 0, Timeout 0] (init deck5)) = [] \<and>
   run [Call_next, Call_next] (init deck5) = run [Call_next] (init deck5)"
proof -
  have a: "\<not> isTransitioning (init deck5)" "currentIndex (init deck5) = 0"
    "totalSections (init deck5) = 5" "isTransitioning (state_of (next (init deck5)))"
    by code_simp+
  have e: "init deck5 = run [] (init deck5)" by simp
  have b: "currentIndex (init deck5) < int (totalSections (init deck5)) - 1"
    using a by simp
  note D = double_next_advances_once [of "init deck5" "init deck5" "[]" deck5]
  have n: "next (state_of (next (init deck5))) = Normal (state_of (next (init deck5)))"
    using D by (rule conjunct1)
  have r: "currentIndex (run [Call_next, Call_next, Timeout 0, Timeout 0] (init deck5)) = currentIndex (init deck5) + 1 \<and>
      currentIndex (run [Call_next, Timeout 0, Call_next, Timeout 0] (init deck5)) = currentIndex (init deck5) + 1 \<and>
      \<not> isTransitioning (run [Call_next, Call_next, Timeout 0, Timeout 0] (init deck5)) \<and>
      timers (run [Call_next, Call_next, Timeout 0, Timeout 0] (init deck5)) = []"
    using D [THEN conjunct2, THEN conjunct2, THEN conjunct2] e a(1) b by blast
  have t: "run [Call_next, Call_next] (init deck5) = run [Call_next] (init deck5)"
    using D by (rule conjunct2 [THEN conjunct1])
  from a n r t show ?thesis by (simp del: run.simps)
qed

text \<open>
  Claim C3 (rejected requests).  For every state and every integer target, \<open>goTo\<close> with
  a target below \<open>0\<close>, at or above the section count, equal to the current index, or
  issued while the lock is held, returns normally and leaves the whole state as it
  was: index, lock, the active flag and the animation restarts of every section, both
  widgets and the pending timers.
\<close>

theorem goTo_rejected_noop:
  "index < 0 \<or> index \<ge> int (totalSections w) \<or> index = currentIndex w \<or> isTransitioning w
   \<Longrightarrow> goTo index w = Normal w"
  by (auto simp: goTo_def)

theorem goTo_rejected_noop_witness:
  "(7 \<ge> int (totalSections (init deck5)) \<and> goTo 7 (init deck5) = Normal (init deck5)) \<and>
   ((- 1 :: int) < 0 \<and> goTo (- 1) (init deck5) = Normal (init deck5)) \<and>
   (0 = currentIndex (init deck5) \<and> goTo 0 (init deck5) = Normal (init deck5)) \<and>
   (isTransitioning (state_of (goTo 2 (init deck5))) \<and>
    goTo 3 (state_of (goTo 2 (init deck5))) = Normal (state_of (goTo 2 (init deck5))))"
proof -
  have a: "7 \<ge> int (totalSections (init deck5))" by code_simp
  have c: "0 = currentIndex (init deck5)" by code_simp
  have d: "isTransitioning (state_of (goTo 2 (init deck5)))" by code_simp
  show ?thesis
    using a c d
      goTo_rejected_noop [of 7 "init deck5"]
      goTo_rejected_noop [of "- 1" "init deck5"]
      goTo_rejected_noop [of 0 "init deck5"]
      goTo_rejected_noop [of 3 "state_of (goTo 2 (init deck5))"]
    by simp
qed

text \<open>
  Claim C4 (single active section), as amended.  The initialization adds the active
  flag to the first section and clears none, so a document whose markup already marks
  another section active starts with two active sections.  Provided no section other
  than the first is marked active in the markup: in every reachable state outside the
  delay window of a transition, exactly one section is active, the current one, and
  none when the document has no section.
\<close>

theorem single_active_outside_window:
  assumes "\<forall>s \<in> set (tl (doc_sections doc)). \<not> active s"
    and "\<not> in_delay_window (run es (init doc))"
  shows "active_count (run es (init doc)) = (if totalSections (run es (init doc)) = 0 then 0 else 1) \<and>
         (\<forall>i < length (sections (run es (init doc))).
            active (sections (run es (init doc)) ! i) \<longleftrightarrow> int i = currentIndex (run es (init doc)))"
proof (cases "doc_sections doc = []")
  case True
  then have "run es (init doc) = init doc" by (rule run_empty)
  with True show ?thesis by (simp add: init_empty active_count_def)
next
  case False
  let ?w = "run es (init doc)"
  have nav: "nav_inv ?w" using False by (rule reachable_nav)
  have act: "active_inv ?w"
    using False assms(1) by (intro run_active init_nav init_active)
  have "active_count ?w = 1" using nav act assms(2) by (rule active_count_one)
  moreover have "totalSections ?w \<noteq> 0" using nav by (auto simp: nav_inv_def)
  ultimately show ?thesis using act assms(2) by (simp add: active_inv_def)
qed

theorem single_active_outside_window_witness:
  "filter active (tl (doc_sections deck5)) = [] \<and>
   \<not> in_delay_window (run [Call_next, Timeout 0] (init deck5)) \<and>
   active_count (run [Call_next, Timeout 0] (init deck5)) = 1 \<and>
   active (sections (run [Call_next, Timeout 0] (init deck5)) ! 1) \<and>
   active_count (run [Call_next] (init empty_page)) = 0"
proof -
  have h: "\<forall>s \<in> set (tl (doc_sections deck5)). \<not> active s"
    by (simp add: deck5_def)
  have h0: "\<forall>s \<in> set (tl (doc_sections empty_page)). \<not> active s"
    by (simp add: empty_page_def)
  have w: "\<not> in_delay_window (run [Call_next, Timeout 0] (init deck5))"
    "\<not> in_delay_window (run [Call_next] (init empty_page))"
    by code_simp+
  have v: "currentIndex (run [Call_next, Timeout 0] (init deck5)) = 1"
    "totalSections (run [Call_next, Timeout 0] (init deck5)) = 5"
    "length (sections (run [Call_next, Timeout 0] (init deck5))) = 5"
    "totalSections (run [Call_next] (init empty_page)) = 0"
    by code_simp+
  from single_active_outside_window [OF h w(1)] v
  have "active_count (run [Call_next, Timeout 0] (init deck5)) = 1 \<and>
    active (sections (run [Call_next, Timeout 0] (init deck5)) ! 1)"
    by (simp del: run.simps)
  moreover from single_active_outside_window [OF h0 w(2)] v
  have "active_count (run [Call_next] (init empty_page)) = 0"
    by (simp del: run.simps)
  moreover have "filter active (tl (doc_sections deck5)) = []"
    by (simp add: deck5_def)
  ultimately show ?thesis using w by blast
qed

text \<open>
  The claim as first stated fails on the page whose second section is marked active in
  the markup: right after the initialization, with no transition started, both
  sections are active.
\<close>

theorem single_active_counterexample:
  "\<not> in_delay_window (run [] (init premarked_page)) \<and>
   totalSections (run [] (init premarked_page)) = 2 \<and>
   active_count (run [] (init premarked_page)) = 2 \<and>
   active_count (run [] (init premarked_page)) \<noteq> 1"
  by code_simp

text \<open>
  Claim C5 (next, prev and the boundaries).  \<open>next\<close> returns the state unchanged when
  the lock is held or the current index is at (or beyond) the last one, and is
  \<open>goTo (currentIndex + 1)\<close> otherwise; \<open>prev\<close> returns the state unchanged when the lock
  is held or the current index is \<open>0\<close> (or below), and is \<open>goTo (currentIndex - 1)\<close>
  otherwise.  Hence any number of calls of \<open>prev\<close> at index \<open>0\<close>, and of \<open>next\<close> at the
  last index, leave the state unchanged.
\<close>

theorem next_prev_boundaries:
  "(isTransitioning w \<or> currentIndex w \<ge> int (totalSections w) - 1 \<longrightarrow> next w = Normal w) \<and>
   (\<not> isTransitioning w \<and> currentIndex w < int (totalSections w) - 1 \<longrightarrow>
      next w = goTo (currentIndex w + 1) w) \<and>
   (isTransitioning w \<or> currentIndex w \<le> 0 \<longrightarrow> prev w = Normal w) \<and>
   (\<not> isTransitioning w \<and> 0 < currentIndex w \<longrightarrow> prev w = goTo (currentIndex w - 1) w) \<and>
   (currentIndex w = 0 \<longrightarrow> run (replicate k Call_prev) w = w) \<and>
   (currentIndex w = int (totalSections w) - 1 \<longrightarrow> run (replicate k Call_next) w = w)"
proof -
  have "currentIndex w = 0 \<Longrightarrow> run (replicate k Call_prev) w = w"
    by (rule run_noop) (simp add: prev_def)
  moreover have "currentIndex w = int (totalSections w) - 1 \<Longrightarrow> run (replicate k Call_next) w = w"
    by (rule run_noop) (simp add: next_def)
  ultimately show ?thesis
    by (auto simp: next_def prev_def)
qed

theorem next_prev_boundaries_witness:
  "currentIndex (init deck5) = 0 \<and>
   run (replicate 3 Call_prev) (init deck5) = init deck5 \<and>
   prev (init deck5) = Normal (init deck5) \<and>
   next (init deck5) = goTo 1 (init deck5) \<and>
   currentIndex (run [Call_goTo 4, Timeout 0, Timeout 0] (init deck5)) = 4 \<and>
   run (replicate 3 Call_next) (run [Call_goTo 4, Timeout 0, Timeout 0] (init deck5))
     = run [Call_goTo 4, Timeout 0, Timeout 0] (init deck5) \<and>
   next (run [Call_goTo 4, Timeout 0, Timeout 0] (init deck5))
     = Normal (run [Call_goTo 4, Timeout 0, Timeout 0] (init deck5)) \<and>
   prev (run [Call_goTo 4, Timeout 0, Timeout 0] (init deck5))
     = goTo 3 (run [Call_goTo 4, Timeout 0, Timeout 0] (init deck5))"
proof -
  have a: "currentIndex (init deck5) = 0" "\<not> isTransitioning (init deck5)"
    "totalSections (init deck5) = 5"
    by code_simp+
  have b: "currentIndex (run [Call_goTo 4, Timeout 0, Timeout 0] (init deck5)) = 4"
    "\<not> isTransitioning (run [Call_goTo 4, Timeout 0, Timeout 0] (init deck5))"
    "totalSections (run [Call_goTo 4, Timeout 0, Timeout 0] (init deck5)) = 5"
    by code_simp+
  show ?thesis
    using a b next_prev_boundaries [of "init deck5" 3]
      next_prev_boundaries [of "run [Call_goTo 4, Timeout 0, Timeout 0] (init deck5)" 3]
    by simp
qed

text \<open>
  Claim C6 (widgets are projections), as amended.  The width of the progress bar is
  computed on doubles and assigned as printed, so it is not always the exact
  percentage: on a deck of 25 sections the transition to index 6 assigns
  \<open>28.000000000000004%\<close>.  What holds: in every state reached on a document with at
  least one section, so in particular after every completed transition, a counter
  widget that the page has holds the markup of \<open>updateCounter\<close> for the current index,
  whose text is the index plus one, \<open>" / "\<close> and the section count in decimal; a
  progress bar that the page has holds the printed double \<open>((index + 1) / count) * 100\<close>
  followed by the percent sign, and that double differs from the exact percentage by
  at most the fraction \<open>1 / 2 ^ 51\<close> of it; a widget the page does not have stays
  absent.  A transition to a valid index \<open>i\<close> from an idle state ends with \<open>i\<close> as the
  current index.
\<close>

theorem widgets_project_state:
  assumes "doc_sections doc \<noteq> []" and "w = run es (init doc)"
  shows "page_counter w =
           map_option (\<lambda>old. counter_html (currentIndex w) (length (doc_sections doc)))
             (doc_page_counter doc) \<and>
         map_option textContent (page_counter w) =
           map_option (\<lambda>old. show_int (currentIndex w + 1) @ '' / '' @ show_nat (length (doc_sections doc)))
             (doc_page_counter doc) \<and>
         progress_fill w =
           map_option (\<lambda>old. number_to_string (percent (currentIndex w) (length (doc_sections doc))) @ ''%'')
             (doc_progress_fill doc) \<and>
         \<bar>double_value (percent (currentIndex w) (length (doc_sections doc)))
            - of_int (currentIndex w + 1) / of_nat (length (doc_sections doc)) * 100\<bar>
           \<le> of_int (currentIndex w + 1) / of_nat (length (doc_sections doc)) * 100 / 2 ^ 51 \<and>
         (\<not> isTransitioning w \<and> 0 \<le> i \<and> i < int (length (doc_sections doc)) \<and> i \<noteq> currentIndex w
            \<longrightarrow> currentIndex (run [Call_goTo i, Timeout 0, Timeout 0] w) = i)"
proof -
  have nav: "nav_inv w" using assms by (simp add: reachable_nav)
  have wid: "widget_inv doc w" using assms by (simp add: reachable_widget)
  then have n: "totalSections w = length (doc_sections doc)" by (simp add: widget_inv_def)
  have c: "page_counter w =
           map_option (\<lambda>old. counter_html (currentIndex w) (length (doc_sections doc)))
             (doc_page_counter doc)"
    using wid by (simp add: widget_inv_def)
  have t: "map_option textContent (page_counter w) =
           map_option (\<lambda>old. show_int (currentIndex w + 1) @ '' / '' @ show_nat (length (doc_sections doc)))
             (doc_page_counter doc)"
    unfolding c by (simp add: option.map_comp comp_def textContent_counter_html)
  have p: "progress_fill w =
           map_option (\<lambda>old. number_to_string (percent (currentIndex w) (length (doc_sections doc))) @ ''%'')
             (doc_progress_fill doc)"
    using wid by (simp add: widget_inv_def percent_text_def)
  have b: "\<bar>double_value (percent (currentIndex w) (length (doc_sections doc)))
            - of_int (currentIndex w + 1) / of_nat (length (doc_sections doc)) * 100\<bar>
           \<le> of_int (currentIndex w + 1) / of_nat (length (doc_sections doc)) * 100 / 2 ^ 51"
    using nav assms(1) by (intro percent_near) (simp_all add: nav_inv_def)
  have g: "currentIndex (run [Call_goTo i, Timeout 0, Timeout 0] w) = i"
    if "\<not> isTransitioning w" "0 \<le> i" "i < int (length (doc_sections doc))" "i \<noteq> currentIndex w"
    using goTo_completes(1) [OF nav that(1,2) _ that(4)] that(3) n by simp
  from c t p b g show ?thesis by blast
qed

theorem widgets_project_state_witness:
  "doc_sections deck5 \<noteq> [] \<and>
   currentIndex (run [Call_next, Timeout 0, Timeout 0] (init deck5)) = 1 \<and>
   map_option textContent (page_counter (run [Call_next, Timeout 0, Timeout 0] (init deck5)))
     = Some ''2 / 5'' \<and>
   progress_fill (run [Call_next, Timeout 0, Timeout 0] (init deck5)) = Some ''40%'' \<and>
   \<bar>double_value (percent 1 5) - 40\<bar> \<le> 40 / 2 ^ 51 \<and>
   currentIndex (run [Call_goTo 4, Timeout 0, Timeout 0]
     (run [Call_next, Timeout 0, Timeout 0] (init deck5))) = 4"
proof -
  have h: "doc_sections deck5 \<noteq> []" by (simp add: deck5_def)
  have d: "length (doc_sections deck5) = 5" "doc_page_counter deck5 = Some []"
    "doc_progress_fill deck5 = Some []"
    by (simp_all add: deck5_def)
  have v: "currentIndex (run [Call_next, Timeout 0, Timeout 0] (init deck5)) = 1"
    "\<not> isTransitioning (run [Call_next, Timeout 0, Timeout 0] (init deck5))"
    by code_simp+
  have s: "show_int (1 + 1) = ''2''" "show_nat 5 = ''5''" by code_simp+
  have n: "number_to_string (percent 1 5) = ''40''" by code_simp
  let ?w = "run [Call_next, Timeout 0, Timeout 0] (init deck5)"
  note W = widgets_project_state [OF h refl, of "[Call_next, Timeout 0, Timeout 0]" 4]
  have t: "map_option textContent (page_counter ?w) = Some ''2 / 5''"
    using W [THEN conjunct2, THEN conjunct1] by (simp only: d v s option.map append.simps)
  have p: "progress_fill ?w = Some ''40%''"
    using W [THEN conjunct2, THEN conjunct2, THEN conjunct1]
    by (simp only: d v n option.map append.simps)
  have b: "\<bar>double_value (percent 1 5) - 40\<bar> \<le> 40 / 2 ^ 51"
    using W [THEN conjunct2, THEN conjunct2, THEN conjunct2, THEN conjunct1]
    by (simp only: d v) simp
  have g: "currentIndex (run [Call_goTo 4, Timeout 0, Timeout 0] ?w) = 4"
    using W [THEN conjunct2, THEN conjunct2, THEN conjunct2, THEN conjunct2] v by (simp only: d) simp
  from h v t p b g show ?thesis by blast
qed

text \<open>
  The claim as first stated fails on a deck of 25 sections: after the transition to
  index 6 the width assigned is \<open>28.000000000000004%\<close>, the double above 28, where the
  exact percentage is 28.
\<close>

theorem widgets_exact_counterexample:
  "currentIndex (run [Call_goTo 6, Timeout 0, Timeout 0] (init deck25)) = 6 \<and>
   totalSections (run [Call_goTo 6, Timeout 0, Timeout 0] (init deck25)) = 25 \<and>
   progress_fill (run [Call_goTo 6, Timeout 0, Timeout 0] (init deck25))
     = Some ''28.000000000000004%'' \<and>
   progress_fill (run [Call_goTo 6, Timeout 0, Timeout 0] (init deck25)) \<noteq> Some ''28%'' \<and>
   double_value (percent 6 25) \<noteq> (6 + 1) / 25 * 100"
proof -
  have a: "currentIndex (run [Call_goTo 6, Timeout 0, Timeout 0] (init deck25)) = 6"
    "totalSections (run [Call_goTo 6, Timeout 0, Timeout 0] (init deck25)) = 25"
    "progress_fill (run [Call_goTo 6, Timeout 0, Timeout 0] (init deck25))
       = Some ''28.000000000000004%''"
    by code_simp+
  have "percent 6 25 = (7881299347898369, - 48)" by code_simp
  then have b: "double_value (percent 6 25) \<noteq> (6 + 1) / 25 * 100"
    by (simp add: double_value_def power_int_minus field_simps)
  from a b show ?thesis by simp
qed

text \<open>
  Claim C7 (click zones).  A click on an interactive element (the target or one of its
  ancestors is a link, a button or a form field) returns the state unchanged whatever
  its position.  Any other click is \<open>next\<close> when its x position exceeds 65 percent of
  the viewport width, \<open>prev\<close> when it is below 35 percent, and returns the state
  unchanged in between.
\<close>

theorem click_zones:
  "(closest_interactive target \<longrightarrow> handleClick target x width w = Normal w) \<and>
   (\<not> closest_interactive target \<longrightarrow>
      (65 * int width < 100 * x \<longrightarrow> handleClick target x width w = next w) \<and>
      (100 * x < 35 * int width \<longrightarrow> handleClick target x width w = prev w) \<and>
      (35 * int width \<le> 100 * x \<and> 100 * x \<le> 65 * int width \<longrightarrow>
         handleClick target x width w = Normal w))"
  by (simp add: handleClick_def click_right click_left)

theorem click_zones_witness:
  "\<not> closest_interactive [''div'', ''body''] \<and> closest_interactive [''span'', ''a'', ''body''] \<and>
   handleClick [''div'', ''body''] 800 1000 (init deck5) = next (init deck5) \<and>
   handleClick [''div'', ''body''] 200 1000 (init deck5) = prev (init deck5) \<and>
   handleClick [''div'', ''body''] 500 1000 (init deck5) = Normal (init deck5) \<and>
   handleClick [''span'', ''a'', ''body''] 800 1000 (init deck5) = Normal (init deck5) \<and>
   currentIndex (run [Click [''div'', ''body''] 800 1000, Timeout 0, Timeout 0] (init deck5)) = 1 \<and>
   currentIndex (run [Click [''div'', ''body''] 200 1000, Timeout 0, Timeout 0]
     (run [Call_goTo 2, Timeout 0, Timeout 0] (init deck5))) = 1 \<and>
   currentIndex (run [Click [''div'', ''body''] 500 1000, Timeout 0, Timeout 0] (init deck5)) = 0 \<and>
   currentIndex (run [Click [''span'', ''a'', ''body''] 800 1000, Timeout 0, Timeout 0] (init deck5)) = 0"
proof -
  let ?w2 = "run [Call_goTo 2, Timeout 0, Timeout 0] (init deck5)"
  have a: "\<not> closest_interactive [''div'', ''body'']" "closest_interactive [''span'', ''a'', ''body'']"
    by code_simp+
  have l: "listening (init deck5)" "listening ?w2"
    by code_simp+
  have n: "currentIndex (run [Timeout 0, Timeout 0] (state_of (next (init deck5)))) = 1"
    "currentIndex (run [Timeout 0, Timeout 0] (state_of (prev ?w2))) = 1"
    "currentIndex (run [Timeout 0, Timeout 0] (init deck5)) = 0"
    by code_simp+
  have c: "handleClick [''div'', ''body''] 800 1000 (init deck5) = next (init deck5)"
    "handleClick [''div'', ''body''] 200 1000 (init deck5) = prev (init deck5)"
    "handleClick [''div'', ''body''] 200 1000 ?w2 = prev ?w2"
    "handleClick [''div'', ''body''] 500 1000 (init deck5) = Normal (init deck5)"
    "handleClick [''span'', ''a'', ''body''] 800 1000 (init deck5) = Normal (init deck5)"
    using a click_zones [of "[''div'', ''body'']" 800 1000 "init deck5"]
      click_zones [of "[''div'', ''body'']" 200 1000 "init deck5"]
      click_zones [of "[''div'', ''body'']" 200 1000 ?w2]
      click_zones [of "[''div'', ''body'']" 500 1000 "init deck5"]
      click_zones [of "[''span'', ''a'', ''body'']" 800 1000 "init deck5"]
    by simp_all
  have r: "run [Click t x wd, Timeout 0, Timeout 0] v =
    run [Timeout 0, Timeout 0] (state_of (handleClick t x wd v))" if "listening v" for t x wd v
    using that by simp
  show ?thesis
    using a n c by (simp only: r [OF l(1)] r [OF l(2)] state_of.simps simp_thms)
qed

text \<open>
  Claim C8 (touch swipes).  A touch that starts at \<open>(sx, sy)\<close> and ends at \<open>(ex, ey)\<close>
  navigates exactly when the horizontal displacement is larger in absolute value than
  the vertical one and larger than 50: the end of the touch is then \<open>next\<close> for a
  leftward swipe and \<open>prev\<close> for a rightward one, and returns the state unchanged
  otherwise.  From an idle reachable state the index, once the timers have run, is one
  more after a leftward swipe (unless already the last), one less after a rightward
  swipe (unless already \<open>0\<close>), and the same after any other touch.
\<close>

theorem touch_swipe:
  assumes "w = run es (init doc)" and "doc_sections doc \<noteq> []"
  shows
    "dispatch (TouchEnd ex ey) (state_of (dispatch (TouchStart sx sy) w)) =
       (if \<bar>sx - ex\<bar> > \<bar>sy - ey\<bar> \<and> \<bar>sx - ex\<bar> > 50
        then (if ex < sx then next (touchstart sx sy w) else prev (touchstart sx sy w))
        else Normal (touchstart sx sy w)) \<and>
     (\<not> isTransitioning w \<longrightarrow>
        currentIndex (run [TouchStart sx sy, TouchEnd ex ey, Timeout 0, Timeout 0] w) =
          (if \<bar>sx - ex\<bar> > \<bar>sy - ey\<bar> \<and> \<bar>sx - ex\<bar> > 50
           then (if ex < sx
                 then (if currentIndex w < int (totalSections w) - 1 then currentIndex w + 1
                       else currentIndex w)
                 else (if 0 < currentIndex w then currentIndex w - 1 else currentIndex w))
           else currentIndex w))"
proof -
  let ?v = "touchstart sx sy w"
  have inv: "nav_inv w" using assms by (simp add: reachable_nav)
  then have l: "listening w" by (simp add: nav_inv_def)
  have invv: "nav_inv ?v" using inv by (auto simp: nav_inv_def touchstart_def)
  have f: "currentIndex ?v = currentIndex w" "totalSections ?v = totalSections w"
    "isTransitioning ?v = isTransitioning w" "listening ?v" "startX ?v = sx" "startY ?v = sy"
    using l by (simp_all add: touchstart_def)
  have first: "dispatch (TouchEnd ex ey) (state_of (dispatch (TouchStart sx sy) w)) =
       (if \<bar>sx - ex\<bar> > \<bar>sy - ey\<bar> \<and> \<bar>sx - ex\<bar> > 50
        then (if ex < sx then next ?v else prev ?v)
        else Normal ?v)"
    using l f by (simp add: touchend_def Let_def)
  have second: "currentIndex (run [TouchStart sx sy, TouchEnd ex ey, Timeout 0, Timeout 0] w) =
          (if \<bar>sx - ex\<bar> > \<bar>sy - ey\<bar> \<and> \<bar>sx - ex\<bar> > 50
           then (if ex < sx
                 then (if currentIndex w < int (totalSections w) - 1 then currentIndex w + 1
                       else currentIndex w)
                 else (if 0 < currentIndex w then currentIndex w - 1 else currentIndex w))
           else currentIndex w)" if idle: "\<not> isTransitioning w"
  proof -
    have split: "run [TouchStart sx sy, TouchEnd ex ey, Timeout 0, Timeout 0] w =
      run [Timeout 0, Timeout 0] (state_of (dispatch (TouchEnd ex ey) (state_of (dispatch (TouchStart sx sy) w))))"
      by simp
    have idlev: "\<not> isTransitioning ?v" using idle f by simp
    have tv: "timers ?v = []" using invv idlev by (auto simp: nav_inv_def)
    have n: "currentIndex (run [Timeout 0, Timeout 0] (state_of (next ?v))) =
           (if currentIndex w < int (totalSections w) - 1 then currentIndex w + 1 else currentIndex w)"
      using next_completes [OF invv idlev] f by simp
    have p: "currentIndex (run [Timeout 0, Timeout 0] (state_of (prev ?v))) =
           (if 0 < currentIndex w then currentIndex w - 1 else currentIndex w)"
      using prev_completes [OF invv idlev] f by simp
    have s: "currentIndex (run [Timeout 0, Timeout 0] (state_of (Normal ?v))) = currentIndex w"
      using tv f by simp
    show ?thesis
      unfolding split first using n p s by (simp del: run.simps)
  qed
  from first second show ?thesis by blast
qed

theorem touch_swipe_witness:
  "doc_sections deck5 \<noteq> [] \<and>
   dispatch (TouchEnd 100 210) (state_of (dispatch (TouchStart 300 200) (init deck5)))
     = next (touchstart 300 200 (init deck5)) \<and>
   dispatch (TouchEnd 290 210) (state_of (dispatch (TouchStart 300 200) (init deck5)))
     = Normal (touchstart 300 200 (init deck5)) \<and>
   currentIndex (run [TouchStart 300 200, TouchEnd 100 210, Timeout 0, Timeout 0] (init deck5)) = 1 \<and>
   currentIndex (run [TouchStart 300 200, TouchEnd 290 210, Timeout 0, Timeout 0] (init deck5)) = 0"
proof -
  have h: "doc_sections deck5 \<noteq> []" by (simp add: deck5_def)
  have a: "\<not> isTransitioning (init deck5)" "currentIndex (init deck5) = 0"
    "totalSections (init deck5) = 5"
    by code_simp+
  have e: "init deck5 = run [] (init deck5)" by simp
  have "dispatch (TouchEnd 100 210) (state_of (dispatch (TouchStart 300 200) (init deck5)))
     = next (touchstart 300 200 (init deck5)) \<and>
     currentIndex (run [TouchStart 300 200, TouchEnd 100 210, Timeout 0, Timeout 0] (init deck5)) = 1"
    using a touch_swipe [OF e h, of 100 210 300 200]
    by (simp del: run.simps dispatch.simps)
  moreover have "dispatch (TouchEnd 290 210) (state_of (dispatch (TouchStart 300 200) (init deck5)))
     = Normal (touchstart 300 200 (init deck5)) \<and>
     currentIndex (run [TouchStart 300 200, TouchEnd 290 210, Timeout 0, Timeout 0] (init deck5)) = 0"
    using a touch_swipe [OF e h, of 290 210 300 200]
    by (simp del: run.simps dispatch.simps)
  ultimately show ?thesis using h by blast
qed

text \<open>
  Claim C9 (no sections).  On a document without sections the initialization leaves
  the engine with an empty section list, no listener attached, no timer pending and the
  widgets as the page had them; every event and every direct call then returns
  normally with the state unchanged, so no sequence of them ever changes anything.
\<close>

theorem no_sections_inert:
  assumes "doc_sections doc = []"
  shows "init doc = \<lparr>sections = [], currentIndex = 0, isTransitioning = False, totalSections = 0,
               progress_fill = doc_progress_fill doc, page_counter = doc_page_counter doc,
               listening = False, startX = 0, startY = 0, timers = [],
               fullscreenElement = False, fullscreen_allowed = doc_fullscreen_allowed doc\<rparr> \<and>
         dispatch e (init doc) = Normal (init doc) \<and>
         run es (init doc) = init doc"
  using assms by (simp only: init_empty [symmetric] dispatch_empty run_empty simp_thms)

theorem no_sections_inert_witness:
  "doc_sections empty_page = [] \<and>
   \<not> listening (init empty_page) \<and> timers (init empty_page) = [] \<and>
   page_counter (init empty_page) = Some [] \<and> progress_fill (init empty_page) = Some [] \<and>
   dispatch (Keydown ''ArrowRight'') (init empty_page) = Normal (init empty_page) \<and>
   dispatch (Call_goTo 3) (init empty_page) = Normal (init empty_page) \<and>
   run [Keydown ''End'', Click [''div''] 900 1000, TouchStart 300 200, TouchEnd 100 210,
        Call_next, Call_goTo 0, Timeout 0] (init empty_page) = init empty_page"
proof -
  have h: "doc_sections empty_page = []" by (simp add: empty_page_def)
  have d: "doc_page_counter empty_page = Some []" "doc_progress_fill empty_page = Some []"
    by (simp_all add: empty_page_def)
  note I = no_sections_inert [OF h, of "Keydown ''ArrowRight''"
      "[Keydown ''End'', Click [''div''] 900 1000, TouchStart 300 200, TouchEnd 100 210,
        Call_next, Call_goTo 0, Timeout 0]"]
  have i: "\<not> listening (init empty_page)" "timers (init empty_page) = []"
    "page_counter (init empty_page) = Some []" "progress_fill (init empty_page) = Some []"
    using I [THEN conjunct1] d by simp_all
  have k: "dispatch (Keydown ''ArrowRight'') (init empty_page) = Normal (init empty_page)"
    using I by (rule conjunct2 [THEN conjunct1])
  have r: "run [Keydown ''End'', Click [''div''] 900 1000, TouchStart 300 200, TouchEnd 100 210,
        Call_next, Call_goTo 0, Timeout 0] (init empty_page) = init empty_page"
    using I by (rule conjunct2 [THEN conjunct2])
  have g: "dispatch (Call_goTo 3) (init empty_page) = Normal (init empty_page)"
    using no_sections_inert [OF h, of "Call_goTo 3" "[]"] by (rule conjunct2 [THEN conjunct1])
  from h i k g r show ?thesis by blast
qed

text \<open>
  Claim C10 (strict thresholds).  For every viewport width, click target and state, a
  click at exactly 65 percent or exactly 35 percent of the width navigates nowhere:
  the handler returns the state unchanged.
\<close>

theorem click_on_threshold_ignored:
  "of_int x = (of_nat width :: rat) * 0.65 \<or> of_int x = (of_nat width :: rat) * 0.35
   \<Longrightarrow> handleClick target x width w = Normal w"
proof -
  have pos: "(0 :: rat) \<le> of_nat width" by simp
  assume "of_int x = (of_nat width :: rat) * 0.65 \<or> of_int x = (of_nat width :: rat) * 0.35"
  then have "\<not> (of_int x :: rat) > of_nat width * 0.65 \<and> \<not> (of_int x :: rat) < of_nat width * 0.35"
    using pos by auto
  then show ?thesis by (simp add: handleClick_def)
qed

theorem click_on_threshold_ignored_witness:
  "(of_int 650 = (of_nat 1000 :: rat) * 0.65 \<and>
    handleClick [''div''] 650 1000 (init deck5) = Normal (init deck5)) \<and>
   (of_int 350 = (of_nat 1000 :: rat) * 0.35 \<and>
    handleClick [''div''] 350 1000 (init deck5) = Normal (init deck5))"
proof -
  have a: "of_int 650 = (of_nat 1000 :: rat) * 0.65" by simp
  have b: "of_int 350 = (of_nat 1000 :: rat) * 0.35" by simp
  show ?thesis
    using a b click_on_threshold_ignored [of 650 1000 "[''div'']" "init deck5"]
      click_on_threshold_ignored [of 350 1000 "[''div'']" "init deck5"]
    by blast
qed

end
